theory Spec2Isabelle
  imports
    Main
    "HOL-Library.Multiset"
    "HOL-Library.List_Lexorder"
    "HOL-Library.Char_ord"
begin

section \<open>Pruning old untagged versions of GHCR containers\<close>

text \<open>
  A shallow embedding of \<^verbatim>\<open>container_prune\<close> of \<^verbatim>\<open>tools/ghcr_prune.py\<close>.
  The function talks to the registry through an HTTP session, reads the clock and prints
  a report. The embedding makes these effects explicit:
  \<^item> the state is the list of requests sent so far and the lines printed so far;
  \<^item> the outside (registry, clock, the \<^verbatim>\<open>dateutil\<close> parser) is a parameter,
    a record of functions; what the registry and the clock answer may depend on the
    requests sent before;
  \<^item> an exception is a value of type \<open>error\<close>; a function that may raise returns
    \<open>error + 'a\<close>, or \<open>error option\<close> paired with the state reached when it raised.
\<close>

subsection \<open>Data\<close>

datatype error = HTTPError | JSONDecodeError | ValueError | TypeError | OverflowError

text \<open>
  A \<^verbatim>\<open>datetime\<close> is either timezone-aware or naive. An aware one is modelled by its
  instant on the UTC time line, a naive one by its wall-clock reading, both in
  microseconds since 1970-01-01 00:00 (the resolution of \<^verbatim>\<open>datetime\<close>). The offset
  of an aware datetime is taken as zero, as in the timestamps of the registry, which
  end in \<^verbatim>\<open>Z\<close>, and as on a machine whose local zone is UTC, so that its wall-clock
  reading, which bounds the arithmetic, is its instant.
\<close>

datatype datetime = Aware int | Naive int

text \<open>
  One element of the JSON array of versions. \<open>id_v\<close> is the key \<^verbatim>\<open>"id"\<close>,
  \<open>created_at\<close> the timestamp as the text the registry sent, \<open>tags\<close> the list at
  \<^verbatim>\<open>["metadata"]["container"]["tags"]\<close>.
\<close>

record version =
  id_v :: int
  name :: string
  created_at :: string
  tags :: "string list"

datatype request =
    GetPackages
  | GetVersions string
  | DeleteVersion string int

record world =
  requests :: "request list"
  stdout :: "string list"

text \<open>
  The outside of the function. \<open>now\<close> is \<^verbatim>\<open>datetime.now().astimezone()\<close>, an aware
  datetime, given as its instant. \<open>get_packages\<close> is the listing of the owned container
  packages reduced to their names, \<open>get_versions\<close> the listing of the versions of a
  container; both fail when the request fails, when the status is an error or when the
  body is not JSON. \<open>delete_version\<close> answers \<open>None\<close> when the deletion succeeded.
  \<open>parse\<close> is \<^verbatim>\<open>dateutil.parser.parse\<close>.
\<close>

record env =
  now :: "request list \<Rightarrow> int"
  get_packages :: "request list \<Rightarrow> error + string list"
  get_versions :: "request list \<Rightarrow> string \<Rightarrow> error + version list"
  delete_version :: "request list \<Rightarrow> string \<Rightarrow> int \<Rightarrow> error option"
  parse :: "string \<Rightarrow> error + datetime"

subsection \<open>Datetime arithmetic\<close>

text \<open>Comparing an aware datetime with a naive one raises \<^verbatim>\<open>TypeError\<close>.\<close>

fun dt_less :: "datetime \<Rightarrow> datetime \<Rightarrow> error + bool" where
  "dt_less (Aware a) (Aware b) = Inr (a < b)"
| "dt_less (Naive a) (Naive b) = Inr (a < b)"
| "dt_less (Aware a) (Naive b) = Inl TypeError"
| "dt_less (Naive a) (Aware b) = Inl TypeError"

fun dt_le :: "datetime \<Rightarrow> datetime \<Rightarrow> error + bool" where
  "dt_le (Aware a) (Aware b) = Inr (a \<le> b)"
| "dt_le (Naive a) (Naive b) = Inr (a \<le> b)"
| "dt_le (Aware a) (Naive b) = Inl TypeError"
| "dt_le (Naive a) (Aware b) = Inl TypeError"

text \<open>
  \<^verbatim>\<open>datetime.min\<close> is 0001-01-01 00:00:00 and \<^verbatim>\<open>datetime.max\<close> is
  9999-12-31 23:59:59.999999. Subtracting a \<^verbatim>\<open>timedelta\<close> raises \<^verbatim>\<open>OverflowError\<close>
  when the result is not a datetime of that range.
\<close>

definition dt_min :: int where
  "dt_min = - 62135596800000000"

definition dt_max :: int where
  "dt_max = 253402300799999999"

definition representable :: "int \<Rightarrow> bool" where
  "representable i \<longleftrightarrow> dt_min \<le> i \<and> i \<le> dt_max"

fun dt_sub :: "datetime \<Rightarrow> int \<Rightarrow> error + datetime" where
  "dt_sub (Aware a) d = (if representable (a - d) then Inr (Aware (a - d)) else Inl OverflowError)"
| "dt_sub (Naive a) d = (if representable (a - d) then Inr (Naive (a - d)) else Inl OverflowError)"

text \<open>\<^verbatim>\<open>timedelta(minutes=15)\<close>, in microseconds.\<close>

definition tag_window :: int where
  "tag_window = 15 * 60 * 1000000"

subsection \<open>The decision\<close>

text \<open>
  Lines 96 to 100: the creation dates of the tagged versions, in the order of the
  listing. Only the timestamps of tagged versions are parsed here.
\<close>

fun tagged_created :: "(string \<Rightarrow> error + datetime) \<Rightarrow> version list \<Rightarrow> error + datetime list" where
  "tagged_created P [] = Inr []"
| "tagged_created P (v # vs) =
     (if tags v \<noteq> [] then
        (case P (created_at v) of
           Inl e \<Rightarrow> Inl e
         | Inr d \<Rightarrow>
            (case tagged_created P vs of
               Inl e \<Rightarrow> Inl e
             | Inr ds \<Rightarrow> Inr (d # ds)))
      else tagged_created P vs)"

text \<open>
  Lines 111 to 113: the inner loop; \<open>True\<close> when it leaves by \<^verbatim>\<open>break\<close>. The
  subtraction comes first and may raise; the chained comparison evaluates its second
  half only when the first half holds.
\<close>

fun near_tagged :: "datetime list \<Rightarrow> datetime \<Rightarrow> error + bool" where
  "near_tagged [] created = Inr False"
| "near_tagged (tag_created # ts) created =
     (case dt_sub tag_created tag_window of
        Inl e \<Rightarrow> Inl e
      | Inr lower \<Rightarrow>
         (case dt_less lower created of
            Inl e \<Rightarrow> Inl e
          | Inr False \<Rightarrow> near_tagged ts created
          | Inr True \<Rightarrow>
             (case dt_le created tag_created of
                Inl e \<Rightarrow> Inl e
              | Inr True \<Rightarrow> Inr True
              | Inr False \<Rightarrow> near_tagged ts created)))"

text \<open>
  Lines 107 to 114: whether the body of the outer loop reaches the \<^verbatim>\<open>else\<close> branch of
  the inner loop for this version, that is, whether the version is deleted (or listed).
\<close>

definition is_candidate ::
  "(string \<Rightarrow> error + datetime) \<Rightarrow> datetime \<Rightarrow> datetime list \<Rightarrow> version \<Rightarrow> error + bool" where
  "is_candidate P del_before tcs v =
     (case P (created_at v) of
        Inl e \<Rightarrow> Inl e
      | Inr created \<Rightarrow>
         (case dt_less created del_before of
            Inl e \<Rightarrow> Inl e
          | Inr old \<Rightarrow>
             if old \<and> tags v = [] then
               (case near_tagged tcs created of
                  Inl e \<Rightarrow> Inl e
                | Inr near \<Rightarrow> Inr (\<not> near))
             else Inr False))"

text \<open>
  \<^verbatim>\<open>sorted(xs, key=key, reverse=True)\<close>: the list is reversed, sorted by a stable sort
  and reversed again, so that elements with equal keys keep their order.
\<close>

definition sorted_reverse :: "('a \<Rightarrow> 'k::linorder) \<Rightarrow> 'a list \<Rightarrow> 'a list" where
  "sorted_reverse key xs = rev (sort_key key (rev xs))"

text \<open>The versions for which the outer loop reaches the \<^verbatim>\<open>else\<close> branch, in its order.\<close>

fun select_loop ::
  "(string \<Rightarrow> error + datetime) \<Rightarrow> datetime \<Rightarrow> datetime list \<Rightarrow> version list \<Rightarrow> error + version list" where
  "select_loop P del_before tcs [] = Inr []"
| "select_loop P del_before tcs (v # vs) =
     (case is_candidate P del_before tcs v of
        Inl e \<Rightarrow> Inl e
      | Inr c \<Rightarrow>
         (case select_loop P del_before tcs vs of
            Inl e \<Rightarrow> Inl e
          | Inr cs \<Rightarrow> Inr (if c then v # cs else cs)))"

text \<open>
  Lines 96 to 114 without the deletion and the report: the decision of
  \<^verbatim>\<open>container_prune\<close> for the versions of one container and a cutoff instant.
\<close>

definition select_for_deletion ::
  "(string \<Rightarrow> error + datetime) \<Rightarrow> version list \<Rightarrow> int \<Rightarrow> error + version list" where
  "select_for_deletion P versions cutoff =
     (case tagged_created P versions of
        Inl e \<Rightarrow> Inl e
      | Inr tcs \<Rightarrow> select_loop P (Aware cutoff) tcs (sorted_reverse id_v versions))"

subsection \<open>The function with its effects\<close>

definition print :: "string \<Rightarrow> world \<Rightarrow> world" where
  "print line w = w\<lparr>stdout := stdout w @ [line]\<rparr>"

definition send :: "request \<Rightarrow> world \<Rightarrow> world" where
  "send r w = w\<lparr>requests := requests w @ [r]\<rparr>"

definition del_header :: "bool \<Rightarrow> string" where
  "del_header dry_run = (if dry_run then ''Would delete'' else ''Deleted'')"

text \<open>Lines 105 to 123: the outer loop, over the sorted versions, with its counter.\<close>

fun prune_loop ::
  "env \<Rightarrow> string \<Rightarrow> bool \<Rightarrow> datetime \<Rightarrow> datetime list \<Rightarrow> version list \<Rightarrow> nat \<Rightarrow> world
     \<Rightarrow> error option \<times> world" where
  "prune_loop E container dry_run del_before tcs [] del_cnt w = (None, w)"
| "prune_loop E container dry_run del_before tcs (v # vs) del_cnt w =
     (case is_candidate (parse E) del_before tcs v of
        Inl e \<Rightarrow> (Some e, w)
      | Inr False \<Rightarrow> prune_loop E container dry_run del_before tcs vs del_cnt w
      | Inr True \<Rightarrow>
         (case (if \<not> dry_run then delete_version E (requests w) container (id_v v) else None) of
            Some e \<Rightarrow> (Some e, send (DeleteVersion container (id_v v)) w)
          | None \<Rightarrow>
             (let w1 = (if \<not> dry_run then send (DeleteVersion container (id_v v)) w else w);
                  w2 = (if del_cnt = 0 then print (''  '' @ del_header dry_run @ '':'') w1 else w1);
                  w3 = print (''  '' @ name v) w2
              in prune_loop E container dry_run del_before tcs vs (del_cnt + 1) w3)))"

text \<open>
  Lines 95 to 123: what is done with the decoded versions of one container, given the
  cutoff \<^verbatim>\<open>del_before\<close>.
\<close>

definition prune_versions ::
  "env \<Rightarrow> string \<Rightarrow> bool \<Rightarrow> datetime \<Rightarrow> version list \<Rightarrow> world \<Rightarrow> error option \<times> world" where
  "prune_versions E container dry_run del_before versions w =
     (case tagged_created (parse E) versions of
        Inl e \<Rightarrow> (Some e, w)
      | Inr tcs \<Rightarrow>
         prune_loop E container dry_run del_before tcs (sorted_reverse id_v versions) 0 w)"

text \<open>
  Lines 86 to 123: the body of the loop over the containers. The cutoff of line 87 is
  computed after the header is printed and before the versions are requested, and the
  subtraction may raise.
\<close>

definition prune_container :: "env \<Rightarrow> string \<Rightarrow> int \<Rightarrow> bool \<Rightarrow> world \<Rightarrow> error option \<times> world" where
  "prune_container E container prune_age dry_run w =
     (let w1 = print (''Pruning images of '' @ container @ ''...'') w
      in case dt_sub (Aware (now E (requests w1))) prune_age of
           Inl e \<Rightarrow> (Some e, w1)
         | Inr del_before \<Rightarrow>
            (case get_versions E (requests w1) container of
               Inl e \<Rightarrow> (Some e, send (GetVersions container) w1)
             | Inr versions \<Rightarrow>
                prune_versions E container dry_run del_before versions
                  (send (GetVersions container) w1)))"

text \<open>Lines 85 to 123: the loop over the containers; an exception ends it.\<close>

fun prune_each :: "env \<Rightarrow> string list \<Rightarrow> int \<Rightarrow> bool \<Rightarrow> world \<Rightarrow> error option \<times> world" where
  "prune_each E [] prune_age dry_run w = (None, w)"
| "prune_each E (container # cs) prune_age dry_run w =
     (case prune_container E container prune_age dry_run w of
        (Some e, w') \<Rightarrow> (Some e, w')
      | (None, w') \<Rightarrow> prune_each E cs prune_age dry_run w')"

text \<open>
  Lines 74 to 123. \<open>prune_age\<close> is the value of \<^verbatim>\<open>timedelta(days=prune_age)\<close>, in
  microseconds. A number of days beyond the range of \<^verbatim>\<open>timedelta\<close> raises
  \<^verbatim>\<open>OverflowError\<close> at line 87, as the subtraction of such a value does here.
\<close>

definition container_prune :: "env \<Rightarrow> string list \<Rightarrow> int \<Rightarrow> bool \<Rightarrow> world \<Rightarrow> error option \<times> world" where
  "container_prune E containers prune_age dry_run w =
     (if length containers = 1 \<and> containers ! 0 = ''all'' then
        (case get_packages E (requests w) of
           Inl e \<Rightarrow> (Some e, send GetPackages w)
         | Inr names \<Rightarrow> prune_each E (sort names) prune_age dry_run (send GetPackages w))
      else prune_each E containers prune_age dry_run w)"

subsection \<open>What a run leaves behind\<close>

text \<open>
  Functions that read the requests and the report of a run; the theorems are stated
  with them. A line of the report is indented when it starts with two spaces: the
  sub-header and the lines of the versions are, the header of a container is not.
\<close>

fun is_delete :: "request \<Rightarrow> bool" where
  "is_delete (DeleteVersion c i) = True"
| "is_delete _ = False"

fun versions_requested :: "request list \<Rightarrow> string list" where
  "versions_requested [] = []"
| "versions_requested (GetVersions c # rs) = c # versions_requested rs"
| "versions_requested (_ # rs) = versions_requested rs"

definition del_req :: "string \<Rightarrow> version \<Rightarrow> request" where
  "del_req c v = DeleteVersion c (id_v v)"

definition indented :: "string \<Rightarrow> bool" where
  "indented l = (take 2 l = ''  '')"

definition section_headers :: "string list \<Rightarrow> string list" where
  "section_headers ls = filter (\<lambda>l. \<not> indented l) ls"

definition header :: "string \<Rightarrow> string" where
  "header c = ''Pruning images of '' @ c @ ''...''"

definition version_line :: "version \<Rightarrow> string" where
  "version_line v = ''  '' @ name v"

definition report :: "bool \<Rightarrow> version list \<Rightarrow> string list" where
  "report dry_run cs =
     (if cs = [] then [] else (''  '' @ del_header dry_run @ '':'') # map version_line cs)"

definition report_from :: "nat \<Rightarrow> bool \<Rightarrow> version list \<Rightarrow> string list" where
  "report_from del_cnt dry_run cs =
     (if del_cnt = 0 then report dry_run cs else map version_line cs)"

text \<open>
  What the loop over the versions adds to the state: requests that are deletions (none
  in dry-run mode) and indented lines.
\<close>

definition loop_shape :: "bool \<Rightarrow> world \<Rightarrow> world \<Rightarrow> bool" where
  "loop_shape dry w w' \<longleftrightarrow>
     (\<exists>ds ls. requests w' = requests w @ ds \<and> (\<forall>r \<in> set ds. is_delete r) \<and> (dry \<longrightarrow> ds = []) \<and>
        stdout w' = stdout w @ ls \<and> (\<forall>l \<in> set ls. indented l))"

text \<open>
  A run from \<open>w\<close> to \<open>w'\<close> with result \<open>res\<close> stops at a failed deletion: whenever a
  deletion among the requests of the run was answered by an error, it is the last
  request of the run and its error is the result of the run.
\<close>

definition stops_at_failed_delete :: "env \<Rightarrow> world \<Rightarrow> error option \<Rightarrow> world \<Rightarrow> bool" where
  "stops_at_failed_delete E w res w' \<longleftrightarrow>
     (\<exists>rs. requests w' = requests w @ rs \<and>
        (\<forall>p c i q e. rs = p @ DeleteVersion c i # q \<longrightarrow>
           delete_version E (requests w @ p) c i = Some e \<longrightarrow> q = [] \<and> res = Some e))"

subsection \<open>The decision as the specification words it\<close>

text \<open>
  The input of the specification's \<^verbatim>\<open>select_for_deletion\<close> is a list of versions whose
  \<^verbatim>\<open>created_at\<close> is a timezone-aware instant. For the code, whose versions carry the
  text of the timestamp, this is the condition that every timestamp parses to an aware
  datetime.
\<close>

definition parses_aware :: "(string \<Rightarrow> error + datetime) \<Rightarrow> version \<Rightarrow> bool" where
  "parses_aware P v = (case P (created_at v) of Inr (Aware i) \<Rightarrow> True | _ \<Rightarrow> False)"

definition prevalidated :: "(string \<Rightarrow> error + datetime) \<Rightarrow> version list \<Rightarrow> bool" where
  "prevalidated P vs = list_all (parses_aware P) vs"

definition instant_of :: "(string \<Rightarrow> error + datetime) \<Rightarrow> version \<Rightarrow> int" where
  "instant_of P v = (case P (created_at v) of Inr (Aware i) \<Rightarrow> i | _ \<Rightarrow> 0)"

text \<open>Step 1 of the specification's algorithm: the creation instants of the tagged versions.\<close>

definition tagged_instants :: "(string \<Rightarrow> error + datetime) \<Rightarrow> version list \<Rightarrow> int list" where
  "tagged_instants P vs = map (instant_of P) (filter (\<lambda>v. tags v \<noteq> []) vs)"

text \<open>Step 2: the versions ordered by id, descending, the input order kept among equal ids.\<close>

definition spec_order :: "version list \<Rightarrow> version list" where
  "spec_order vs = sort_key (\<lambda>v. - id_v v) vs"

text \<open>
  Step 3: a version is a candidate when it is older than the cutoff, has no tag and was
  not created in the window before the creation of a tagged version.
\<close>

definition spec_candidate ::
  "(string \<Rightarrow> error + datetime) \<Rightarrow> int list \<Rightarrow> int \<Rightarrow> int \<Rightarrow> version \<Rightarrow> bool" where
  "spec_candidate P T cutoff window v \<longleftrightarrow>
     instant_of P v < cutoff \<and> tags v = [] \<and>
     \<not> (\<exists>t \<in> set T. t - window < instant_of P v \<and> instant_of P v \<le> t)"


text \<open>Step 4: the candidates, in the order of step 2.\<close>

definition spec_select ::
  "(string \<Rightarrow> error + datetime) \<Rightarrow> version list \<Rightarrow> int \<Rightarrow> int \<Rightarrow> version list" where
  "spec_select P versions cutoff window =
     filter (spec_candidate P (tagged_instants P versions) cutoff window) (spec_order versions)"

subsection \<open>A registry to run the function on\<close>

text \<open>
  A parser that knows eight timestamps, one without an offset and one at
  \<^verbatim>\<open>datetime.min\<close>; six versions of a container \<^verbatim>\<open>api\<close>, two of them tagged five
  minutes apart, and a seventh version, tagged, with the earliest timestamp; a registry that owns the
  containers \<^verbatim>\<open>web\<close> and \<^verbatim>\<open>api\<close> and refuses to delete version 11. The clock
  shows 2022-03-01 00:00 UTC; with a prune age of 14 days the cutoff is 2022-02-15.
\<close>

definition example_parse :: "string \<Rightarrow> error + datetime" where
  "example_parse s =
     (case map_of
        [(''2022-01-01T00:00:00Z'', Aware 1640995200000000),
         (''2022-02-01T00:00:00Z'', Aware 1643673600000000),
         (''2022-02-01T00:05:00Z'', Aware 1643673900000000),
         (''2022-02-01T00:10:00Z'', Aware 1643674200000000),
         (''2022-02-01T00:20:00Z'', Aware 1643674800000000),
         (''2022-03-01T00:00:00Z'', Aware 1646092800000000),
         (''2022-01-01T00:00:00'', Naive 1640995200000000),
         (''0001-01-01T00:00:00Z'', Aware (- 62135596800000000))] s of
        Some d \<Rightarrow> Inr d
      | None \<Rightarrow> Inl ValueError)"


definition v11 :: version where
  "v11 = \<lparr>id_v = 11, name = ''sha256:0b'', created_at = ''2022-01-01T00:00:00Z'', tags = []\<rparr>"

definition v12 :: version where
  "v12 = \<lparr>id_v = 12, name = ''sha256:0c'', created_at = ''2022-02-01T00:00:00Z'', tags = []\<rparr>"

definition v13 :: version where
  "v13 = \<lparr>id_v = 13, name = ''sha256:0d'', created_at = ''2022-02-01T00:05:00Z'', tags = [''v1'']\<rparr>"

definition v14 :: version where
  "v14 = \<lparr>id_v = 14, name = ''sha256:0e'', created_at = ''2022-02-01T00:10:00Z'',
     tags = [''latest'']\<rparr>"

definition v15 :: version where
  "v15 = \<lparr>id_v = 15, name = ''sha256:0f'', created_at = ''2022-02-01T00:20:00Z'', tags = []\<rparr>"

definition v16 :: version where
  "v16 = \<lparr>id_v = 16, name = ''sha256:10'', created_at = ''2022-03-01T00:00:00Z'', tags = []\<rparr>"

definition example_versions :: "version list" where
  "example_versions = [v12, v16, v11, v14, v15, v13]"

definition example_cutoff :: int where
  "example_cutoff = 1644883200000000"

definition example_age :: int where
  "example_age = 1209600000000"

definition example_env :: env where
  "example_env =
     \<lparr>now = (\<lambda>h. 1646092800000000),
      get_packages = (\<lambda>h. Inr [''web'', ''api'']),
      get_versions = (\<lambda>h c. if c = ''api'' then Inr example_versions
                              else if c = ''web'' then Inr [v11] else Inl HTTPError),
      delete_version = (\<lambda>h c i. if i = 11 then Some HTTPError else None),
      parse = example_parse\<rparr>"

definition w0 :: world where
  "w0 = \<lparr>requests = [], stdout = []\<rparr>"

section \<open>Lemmas\<close>

subsection \<open>The decision on well-formed timestamps\<close>

lemma parses_aware_iff: "parses_aware P v \<longleftrightarrow> (\<exists>i. P (created_at v) = Inr (Aware i))"
proof (cases "P (created_at v)")
  case (Inl e)
  then show ?thesis by (simp add: parses_aware_def)
next
  case (Inr d)
  then show ?thesis by (cases d) (simp_all add: parses_aware_def)
qed

lemma prevalidated_Cons:
  "prevalidated P (v # vs) \<longleftrightarrow> (\<exists>i. P (created_at v) = Inr (Aware i)) \<and> prevalidated P vs"
  by (simp add: prevalidated_def parses_aware_iff)

lemma prevalidated_iff:
  "prevalidated P vs \<longleftrightarrow> (\<forall>v \<in> set vs. \<exists>i. P (created_at v) = Inr (Aware i))"
  by (simp add: prevalidated_def list_all_iff parses_aware_iff)

lemma tagged_created_valid:
  "prevalidated P vs \<Longrightarrow> tagged_created P vs = Inr (map Aware (tagged_instants P vs))"
  by (induction vs) (auto simp: prevalidated_Cons tagged_instants_def instant_of_def)

text \<open>What the inner loop answers when it answers, and when it does answer.\<close>

lemma near_tagged_sound:
  "near_tagged (map Aware T) (Aware c) = Inr b \<Longrightarrow>
   b = (\<exists>t \<in> set T. t - tag_window < c \<and> c \<le> t)"
proof (induction T)
  case Nil
  then show ?case by simp
next
  case (Cons t T)
  show ?case
  proof (cases "representable (t - tag_window)")
    case False
    with Cons.prems show ?thesis by simp
  next
    case True
    show ?thesis
    proof (cases "t - tag_window < c \<and> c \<le> t")
      case True
      with \<open>representable (t - tag_window)\<close> Cons.prems show ?thesis by auto
    next
      case False
      with \<open>representable (t - tag_window)\<close> Cons.prems
      have "near_tagged (map Aware T) (Aware c) = Inr b"
        by (cases "t - tag_window < c") simp_all
      from Cons.IH [OF this] False show ?thesis by auto
    qed
  qed
qed


lemma is_candidate_sound:
  assumes "is_candidate P (Aware cutoff) (map Aware T) v = Inr b"
  shows "(\<exists>i. P (created_at v) = Inr (Aware i)) \<and> b = spec_candidate P T cutoff tag_window v"
proof (cases "P (created_at v)")
  case (Inl e)
  with assms show ?thesis by (simp add: is_candidate_def)
next
  case (Inr d)
  show ?thesis
  proof (cases d)
    case (Naive i)
    with Inr assms show ?thesis by (simp add: is_candidate_def)
  next
    case (Aware i)
    have i: "instant_of P v = i"
      using Inr Aware by (simp add: instant_of_def)
    show ?thesis
    proof (cases "i < cutoff \<and> tags v = []")
      case False
      with Inr Aware assms i show ?thesis
        by (auto simp: is_candidate_def spec_candidate_def)
    next
      case True
      with Inr Aware assms obtain n where n: "near_tagged (map Aware T) (Aware i) = Inr n" "b = (\<not> n)"
        by (auto simp: is_candidate_def split: sum.splits)
      from near_tagged_sound [OF n(1)] n(2) True Inr Aware i show ?thesis
        by (simp add: spec_candidate_def)
    qed
  qed
qed


lemma is_candidate_tagged:
  "P (created_at v) = Inr (Aware i) \<Longrightarrow> tags v \<noteq> [] \<Longrightarrow>
   is_candidate P (Aware cutoff) tcs v = Inr False"
  by (simp add: is_candidate_def)

lemma select_loop_sound:
  "select_loop P (Aware cutoff) (map Aware T) vs = Inr r \<Longrightarrow>
   prevalidated P vs \<and> r = filter (spec_candidate P T cutoff tag_window) vs"
proof (induction vs arbitrary: r)
  case Nil
  then show ?case by (simp add: prevalidated_iff)
next
  case (Cons v vs)
  from Cons.prems obtain b r' where b: "is_candidate P (Aware cutoff) (map Aware T) v = Inr b"
    and r': "select_loop P (Aware cutoff) (map Aware T) vs = Inr r'"
    and r: "r = (if b then v # r' else r')"
    by (auto split: sum.splits)
  from is_candidate_sound [OF b] Cons.IH [OF r'] r show ?case
    by (auto simp: prevalidated_Cons)
qed


lemma select_loop_tagged:
  "prevalidated P vs \<Longrightarrow> \<forall>v \<in> set vs. tags v \<noteq> [] \<Longrightarrow>
   select_loop P (Aware cutoff) tcs vs = Inr []"
  by (induction vs) (auto simp: prevalidated_Cons is_candidate_tagged)

lemma select_loop_Inr_valid:
  "select_loop P (Aware cutoff) tcs vs = Inr r \<Longrightarrow> prevalidated P vs"
proof (induction vs arbitrary: r)
  case Nil
  show ?case by (simp add: prevalidated_iff)
next
  case (Cons v vs)
  from Cons.prems obtain b r' where b: "is_candidate P (Aware cutoff) tcs v = Inr b"
    and r': "select_loop P (Aware cutoff) tcs vs = Inr r'"
    by (auto split: sum.splits)
  have "\<exists>i. P (created_at v) = Inr (Aware i)"
  proof (cases "P (created_at v)")
    case (Inl e)
    with b show ?thesis by (simp add: is_candidate_def)
  next
    case (Inr d)
    with b show ?thesis by (cases d) (simp_all add: is_candidate_def)
  qed
  with Cons.IH [OF r'] show ?case by (simp add: prevalidated_Cons)
qed

lemma set_sorted_reverse: "set (sorted_reverse key xs) = set xs"
  by (simp add: sorted_reverse_def)

lemma prevalidated_sorted_reverse: "prevalidated P (sorted_reverse key vs) = prevalidated P vs"
  by (simp add: prevalidated_iff set_sorted_reverse)

lemma sorted_neg_rev:
  fixes f :: "'a \<Rightarrow> int"
  shows "sorted (map f zs) \<Longrightarrow> sorted (map (\<lambda>x. - f x) (rev zs))"
  by (induction zs) (auto simp: sorted_append)

lemma sorted_reverse_neg:
  fixes f :: "'a \<Rightarrow> int"
  shows "sorted_reverse f xs = sort_key (\<lambda>x. - f x) xs"
proof -
  let ?ys = "rev (sort_key f (rev xs))"
  have "sort_key (\<lambda>x. - f x) xs = ?ys"
  proof (rule properties_for_sort_key)
    show "mset ?ys = mset xs" by simp
    show "sorted (map (\<lambda>x. - f x) ?ys)"
      by (rule sorted_neg_rev) simp
    show "filter (\<lambda>x. - f k = - f x) ?ys = filter (\<lambda>x. - f k = - f x) xs" for k
    proof -
      have "filter (\<lambda>x. f x = f k) (sort_key f (rev xs)) = filter (\<lambda>x. f x = f k) (rev xs)"
        by (rule sort_key_stable)
      then have "rev (filter (\<lambda>x. f x = f k) (sort_key f (rev xs))) = filter (\<lambda>x. f x = f k) xs"
        by (simp add: rev_filter)
      moreover have "(\<lambda>x. - f k = - f x) = (\<lambda>x. f x = f k)" by auto
      ultimately show ?thesis by (simp add: rev_filter)
    qed
  qed
  then show ?thesis by (simp add: sorted_reverse_def)
qed

lemma select_Inr_valid:
  "select_for_deletion P vs cutoff = Inr r \<Longrightarrow> prevalidated P vs"
  by (auto simp: select_for_deletion_def prevalidated_sorted_reverse split: sum.splits
      dest: select_loop_Inr_valid)

lemma select_sound:
  assumes "select_for_deletion P vs cutoff = Inr r"
  shows "r = spec_select P vs cutoff tag_window"
proof -
  from assms have val: "prevalidated P vs" by (rule select_Inr_valid)
  with assms have "select_loop P (Aware cutoff) (map Aware (tagged_instants P vs))
      (sorted_reverse id_v vs) = Inr r"
    by (simp add: select_for_deletion_def tagged_created_valid)
  from select_loop_sound [OF this] show ?thesis
    by (simp add: spec_select_def spec_order_def sorted_reverse_neg)
qed


lemma select_tagged:
  assumes "prevalidated P vs" and "\<forall>v \<in> set vs. tags v \<noteq> []"
  shows "select_for_deletion P vs cutoff = Inr []"
proof -
  from assms(1) have "prevalidated P (sorted_reverse id_v vs)"
    by (simp add: prevalidated_sorted_reverse)
  moreover from assms(2) have "\<forall>v \<in> set (sorted_reverse id_v vs). tags v \<noteq> []"
    by (simp add: set_sorted_reverse)
  ultimately have "select_loop P (Aware cutoff) (map Aware (tagged_instants P vs))
      (sorted_reverse id_v vs) = Inr []"
    by (rule select_loop_tagged)
  with assms(1) show ?thesis
    by (simp add: select_for_deletion_def tagged_created_valid)
qed




lemma set_spec_select:
  "set (spec_select P vs cutoff window) =
     {v \<in> set vs. spec_candidate P (tagged_instants P vs) cutoff window v}"
  by (auto simp: spec_select_def spec_order_def)




subsection \<open>The loop over the versions\<close>

lemma prune_loop_dry:
  "select_loop (parse E) db tcs vs = Inr cs \<Longrightarrow>
   prune_loop E c True db tcs vs n w = (None, w\<lparr>stdout := stdout w @ report_from n True cs\<rparr>)"
proof (induction vs arbitrary: cs n w)
  case Nil
  then show ?case by (simp add: report_from_def report_def)
next
  case (Cons v vs)
  then obtain b cs' where b: "is_candidate (parse E) db tcs v = Inr b"
    and cs': "select_loop (parse E) db tcs vs = Inr cs'"
    and cs: "cs = (if b then v # cs' else cs')"
    by (auto split: sum.splits)
  show ?case
  proof (cases b)
    case False
    with b cs cs' Cons.IH show ?thesis by simp
  next
    case True
    with b cs cs' Cons.IH [OF cs'] show ?thesis
      by (simp add: print_def report_from_def report_def version_line_def)
  qed
qed

lemma prune_loop_live:
  "select_loop (parse E) db tcs vs = Inr cs \<Longrightarrow>
   prune_loop E c False db tcs vs n w = (res, w') \<Longrightarrow>
   \<exists>k \<le> length cs.
     requests w' = requests w @ map (del_req c) (take k cs) \<and>
     (res = None \<longrightarrow> k = length cs \<and> stdout w' = stdout w @ report_from n False cs) \<and>
     (\<forall>e. res = Some e \<longrightarrow> 0 < k \<and>
        delete_version E (requests w @ map (del_req c) (take (k - 1) cs)) c (id_v (cs ! (k - 1))) = Some e \<and>
        stdout w' = stdout w @ report_from n False (take (k - 1) cs))"
proof (induction vs arbitrary: cs n w)
  case Nil
  then show ?case by (auto simp: report_from_def report_def)
next
  case (Cons v vs)
  then obtain b cs' where b: "is_candidate (parse E) db tcs v = Inr b"
    and cs': "select_loop (parse E) db tcs vs = Inr cs'"
    and cs: "cs = (if b then v # cs' else cs')"
    by (auto split: sum.splits)
  show ?case
  proof (cases b)
    case False
    with b cs cs' Cons.IH [OF cs'] Cons.prems(2) show ?thesis by simp
  next
    case True
    show ?thesis
    proof (cases "delete_version E (requests w) c (id_v v)")
      case (Some e)
      with True b Cons.prems(2) have "res = Some e" "w' = send (DeleteVersion c (id_v v)) w"
        by auto
      with Some True cs show ?thesis
        by (intro exI [of _ 1]) (simp add: send_def del_req_def report_from_def report_def)
    next
      case None
      define w3 where "w3 = print (''  '' @ name v)
        ((if n = 0 then print (''  '' @ del_header False @ '':'') else (\<lambda>x. x))
          (send (DeleteVersion c (id_v v)) w))"
      from None True b Cons.prems(2) have run: "prune_loop E c False db tcs vs (n + 1) w3 = (res, w')"
        by (auto simp: w3_def Let_def)
      have r3: "requests w3 = requests w @ [del_req c v]"
        by (simp add: w3_def print_def send_def del_req_def)
      have s3: "stdout w3 = stdout w @ report_from n False [v]"
        by (simp add: w3_def print_def send_def report_from_def report_def version_line_def)
      from Cons.IH [OF cs' run] obtain k where k: "k \<le> length cs'"
        "requests w' = requests w3 @ map (del_req c) (take k cs')"
        "res = None \<longrightarrow> k = length cs' \<and> stdout w' = stdout w3 @ report_from (n + 1) False cs'"
        "\<forall>e. res = Some e \<longrightarrow> 0 < k \<and>
          delete_version E (requests w3 @ map (del_req c) (take (k - 1) cs')) c (id_v (cs' ! (k - 1))) = Some e \<and>
          stdout w' = stdout w3 @ report_from (n + 1) False (take (k - 1) cs')"
        by blast
      from True cs have csv: "cs = v # cs'" by simp
      show ?thesis
      proof (intro exI [of _ "Suc k"] conjI impI allI)
        show "Suc k \<le> length cs" using k(1) csv by simp
        show "requests w' = requests w @ map (del_req c) (take (Suc k) cs)"
          using k(2) r3 csv by simp
        show "Suc k = length cs" if "res = None" using that k(3) csv by simp
        show "stdout w' = stdout w @ report_from n False cs" if "res = None"
          using that k(3) s3 csv by (simp add: report_from_def report_def)
        show "0 < Suc k" by simp
        show "delete_version E (requests w @ map (del_req c) (take (Suc k - 1) cs)) c
                (id_v (cs ! (Suc k - 1))) = Some e" if "res = Some e" for e
        proof -
          from that k(4) have "0 < k" and
            d: "delete_version E (requests w3 @ map (del_req c) (take (k - 1) cs')) c (id_v (cs' ! (k - 1))) = Some e"
            by auto
          then obtain j where j: "k = Suc j" by (cases k) auto
          with d r3 csv show ?thesis by simp
        qed
        show "stdout w' = stdout w @ report_from n False (take (Suc k - 1) cs)" if "res = Some e" for e
        proof -
          from that k(4) have "0 < k" and
            d: "stdout w' = stdout w3 @ report_from (n + 1) False (take (k - 1) cs')"
            by auto
          then obtain j where j: "k = Suc j" by (cases k) auto
          with d s3 csv show ?thesis by (simp add: report_from_def report_def)
        qed
      qed
    qed
  qed
qed

lemma loop_shape_refl: "loop_shape dry w w"
  by (simp add: loop_shape_def)

lemma loop_shape_trans:
  assumes "loop_shape dry w w1" and "loop_shape dry w1 w2"
  shows "loop_shape dry w w2"
proof -
  from assms(1) obtain ds ls where 1: "requests w1 = requests w @ ds" "\<forall>r \<in> set ds. is_delete r"
    "dry \<longrightarrow> ds = []" "stdout w1 = stdout w @ ls" "\<forall>l \<in> set ls. indented l"
    unfolding loop_shape_def by blast
  from assms(2) obtain ds' ls' where 2: "requests w2 = requests w1 @ ds'" "\<forall>r \<in> set ds'. is_delete r"
    "dry \<longrightarrow> ds' = []" "stdout w2 = stdout w1 @ ls'" "\<forall>l \<in> set ls'. indented l"
    unfolding loop_shape_def by blast
  from 1 2 have "requests w2 = requests w @ (ds @ ds')" "\<forall>r \<in> set (ds @ ds'). is_delete r"
    "dry \<longrightarrow> ds @ ds' = []" "stdout w2 = stdout w @ (ls @ ls')" "\<forall>l \<in> set (ls @ ls'). indented l"
    by auto
  then show ?thesis unfolding loop_shape_def by blast
qed

lemma loop_shape_send: "loop_shape False w (send (DeleteVersion c i) w)"
  by (simp add: loop_shape_def send_def)

lemma loop_shape_print: "indented l \<Longrightarrow> loop_shape dry w (print l w)"
  by (simp add: loop_shape_def print_def)

lemma loop_shape_lines:
  assumes "loop_shape dry w w1"
  shows "loop_shape dry w (print (''  '' @ nm) (if n = 0 then print (''  '' @ h @ '':'') w1 else w1))"
proof -
  have ind: "indented (''  '' @ s)" for s by (simp add: indented_def)
  have a: "loop_shape dry w (if n = 0 then print (''  '' @ h @ '':'') w1 else w1)"
  proof (cases "n = 0")
    case True
    have "loop_shape dry w (print (''  '' @ h @ '':'') w1)"
      by (rule loop_shape_trans [OF assms loop_shape_print [OF ind]])
    with True show ?thesis by simp
  next
    case False
    with assms show ?thesis by simp
  qed
  show ?thesis by (rule loop_shape_trans [OF a loop_shape_print [OF ind]])
qed

lemma versions_requested_append:
  "versions_requested (rs @ rs') = versions_requested rs @ versions_requested rs'"
  by (induction rs rule: versions_requested.induct) simp_all

lemma versions_requested_deletes:
  "\<forall>r \<in> set ds. is_delete r \<Longrightarrow> versions_requested ds = []"
  by (induction ds rule: versions_requested.induct) simp_all

lemma prune_loop_shape: "loop_shape dry w (snd (prune_loop E c dry db tcs vs n w))"
proof (induction vs arbitrary: n w)
  case Nil
  show ?case by (simp add: loop_shape_refl)
next
  case (Cons v vs)
  show ?case
  proof (cases "is_candidate (parse E) db tcs v")
    case (Inl e)
    then show ?thesis by (simp add: loop_shape_refl)
  next
    case (Inr b)
    show ?thesis
    proof (cases b)
      case False
      with Inr Cons.IH show ?thesis by simp
    next
      case True
      define w1 where "w1 = (if \<not> dry then send (DeleteVersion c (id_v v)) w else w)"
      define w3 where "w3 = print (''  '' @ name v)
        (if n = 0 then print (''  '' @ del_header dry @ '':'') w1 else w1)"
      have w1: "loop_shape dry w w1"
        by (simp add: w1_def loop_shape_send loop_shape_refl)
      have w3: "loop_shape dry w w3"
        unfolding w3_def using w1 by (rule loop_shape_lines)
      show ?thesis
      proof (cases "if \<not> dry then delete_version E (requests w) c (id_v v) else None")
        case (Some e)
        then have "\<not> dry" by (auto split: if_splits)
        with Some Inr True show ?thesis by (simp add: loop_shape_send)
      next
        case None
        with Inr True have "prune_loop E c dry db tcs (v # vs) n w =
          prune_loop E c dry db tcs vs (n + 1) w3"
          by (simp add: w3_def w1_def Let_def)
        with loop_shape_trans [OF w3 Cons.IH [of w3 "n + 1"]] show ?thesis
          by simp
      qed
    qed
  qed
qed

lemma prune_versions_shape: "loop_shape dry w (snd (prune_versions E c dry db vs w))"
  by (auto simp: prune_versions_def loop_shape_refl prune_loop_shape split: sum.splits)

lemma not_indented_header: "\<not> indented (header c)"
  by (simp add: indented_def header_def)

lemma prune_container_trace:
  assumes "prune_container E c age dry w = (res, w')"
  shows "\<exists>gs ds ls. requests w' = requests w @ gs @ ds \<and>
           (gs = [GetVersions c] \<or> gs = [] \<and> ds = [] \<and> res \<noteq> None) \<and>
           (\<forall>r \<in> set ds. is_delete r) \<and> (dry \<longrightarrow> ds = []) \<and>
           stdout w' = stdout w @ header c # ls \<and> (\<forall>l \<in> set ls. indented l)"
proof (cases "dt_sub (Aware (now E (requests w))) age")
  case (Inl e)
  with assms have "res = Some e" "w' = print (header c) w"
    by (auto simp del: dt_sub.simps simp: prune_container_def Let_def header_def print_def)
  then have "requests w' = requests w @ [] @ []" "stdout w' = stdout w @ header c # []" "res \<noteq> None"
    by (simp_all add: print_def)
  then show ?thesis
    by (intro exI [of _ "[]"]) simp
next
  case (Inr db)
  define w2 where "w2 = send (GetVersions c) (print (header c) w)"
  have "loop_shape dry w2 w'"
  proof (cases "get_versions E (requests w) c")
    case (Inl e)
    with Inr assms show ?thesis
      by (auto simp del: dt_sub.simps simp: prune_container_def Let_def w2_def header_def print_def loop_shape_refl)
  next
    case vs: (Inr vs)
    with Inr assms have "w' = snd (prune_versions E c dry db vs w2)"
      by (auto simp del: dt_sub.simps simp: prune_container_def Let_def w2_def header_def print_def)
    then show ?thesis by (simp add: prune_versions_shape)
  qed
  then obtain ds ls where "requests w' = requests w2 @ ds" "\<forall>r \<in> set ds. is_delete r"
    "dry \<longrightarrow> ds = []" "stdout w' = stdout w2 @ ls" "\<forall>l \<in> set ls. indented l"
    by (auto simp: loop_shape_def)
  then have "requests w' = requests w @ [GetVersions c] @ ds" "\<forall>r \<in> set ds. is_delete r"
    "dry \<longrightarrow> ds = []" "stdout w' = stdout w @ header c # ls" "\<forall>l \<in> set ls. indented l"
    by (simp_all add: w2_def send_def print_def)
  then show ?thesis by blast
qed

lemma deletes_no_listing: "\<forall>r \<in> set ds. is_delete r \<Longrightarrow> GetPackages \<notin> set ds"
  by auto

lemma section_headers_indented: "\<forall>l \<in> set ls. indented l \<Longrightarrow> section_headers ls = []"
  by (induction ls) (simp_all add: section_headers_def)

lemma section_headers_append: "section_headers (ls @ ls') = section_headers ls @ section_headers ls'"
  by (simp add: section_headers_def)

lemma prune_each_trace:
  "prune_each E cs age dry w = (res, w') \<Longrightarrow>
   \<exists>k h rs ls. k \<le> h \<and> h \<le> Suc k \<and> h \<le> length cs \<and>
     requests w' = requests w @ rs \<and> stdout w' = stdout w @ ls \<and>
     versions_requested rs = take k cs \<and>
     section_headers ls = map header (take h cs) \<and>
     GetPackages \<notin> set rs \<and>
     (dry \<longrightarrow> (\<forall>r \<in> set rs. \<not> is_delete r)) \<and>
     (res = None \<longrightarrow> k = length cs)"
proof (induction cs arbitrary: w)
  case Nil
  then show ?case by (simp add: section_headers_def)
next
  case (Cons c cs)
  obtain r1 w1 where pc: "prune_container E c age dry w = (r1, w1)"
    by (cases "prune_container E c age dry w")
  from prune_container_trace [OF pc] obtain gs ds ls1 where ds:
    "requests w1 = requests w @ gs @ ds"
    "gs = [GetVersions c] \<or> gs = [] \<and> ds = [] \<and> r1 \<noteq> None"
    "\<forall>r \<in> set ds. is_delete r" "dry \<longrightarrow> ds = []"
    "stdout w1 = stdout w @ header c # ls1" "\<forall>l \<in> set ls1. indented l"
    by blast
  have gp: "GetPackages \<notin> set (gs @ ds)"
    using deletes_no_listing [OF ds(3)] ds(2) by auto
  have vd: "versions_requested ds = []"
    using ds(3) by (rule versions_requested_deletes)
  have sh: "section_headers (header c # ls1) = [header c]"
    using section_headers_indented [OF ds(6)] not_indented_header [of c]
    by (simp add: section_headers_def)
  have nd: "dry \<longrightarrow> (\<forall>r \<in> set (gs @ ds). \<not> is_delete r)"
    using ds(2,4) by auto
  show ?case
  proof (cases r1)
    case (Some e)
    with pc Cons.prems have res: "res = Some e" "w' = w1" by auto
    from ds(2) show ?thesis
    proof
      assume g: "gs = [GetVersions c]"
      then have "versions_requested (gs @ ds) = take 1 (c # cs)"
        using vd by simp
      moreover have "section_headers (header c # ls1) = map header (take 1 (c # cs))"
        using sh by simp
      moreover have "(1::nat) \<le> 1" "(1::nat) \<le> Suc 1" "1 \<le> length (c # cs)" "res = None \<longrightarrow> 1 = length (c # cs)"
        using res by simp_all
      ultimately show ?thesis
        using ds(1,5) gp nd res(2) by blast
    next
      assume g: "gs = [] \<and> ds = [] \<and> r1 \<noteq> None"
      then have "versions_requested (gs @ ds) = take 0 (c # cs)"
        by simp
      moreover have "section_headers (header c # ls1) = map header (take 1 (c # cs))"
        using sh by simp
      moreover have "(0::nat) \<le> 1" "(1::nat) \<le> Suc 0" "1 \<le> length (c # cs)" "res = None \<longrightarrow> 0 = length (c # cs)"
        using res by simp_all
      ultimately show ?thesis
        using ds(1,5) gp nd res(2) by blast
    qed
  next
    case None
    with ds(2) have g: "gs = [GetVersions c]" by simp
    from None pc Cons.prems have "prune_each E cs age dry w1 = (res, w')" by simp
    from Cons.IH [OF this] obtain k h rs ls where k: "k \<le> h" "h \<le> Suc k" "h \<le> length cs"
      "requests w' = requests w1 @ rs" "stdout w' = stdout w1 @ ls"
      "versions_requested rs = take k cs"
      "section_headers ls = map header (take h cs)"
      "GetPackages \<notin> set rs"
      "dry \<longrightarrow> (\<forall>r \<in> set rs. \<not> is_delete r)"
      "res = None \<longrightarrow> k = length cs"
      by blast
    have "versions_requested ((gs @ ds) @ rs) = take (Suc k) (c # cs)"
      using g vd k(6) by (simp add: versions_requested_append)
    moreover have "section_headers ((header c # ls1) @ ls) = map header (take (Suc h) (c # cs))"
      using sh k(7) by (simp only: section_headers_append) simp
    moreover have "GetPackages \<notin> set ((gs @ ds) @ rs)"
      using gp k(8) by simp
    moreover have "dry \<longrightarrow> (\<forall>r \<in> set ((gs @ ds) @ rs). \<not> is_delete r)"
      using nd k(9) by auto
    moreover have "requests w' = requests w @ ((gs @ ds) @ rs)"
      using ds(1) k(4) by simp
    moreover have "stdout w' = stdout w @ ((header c # ls1) @ ls)"
      using ds(5) k(5) by simp
    moreover have "Suc k \<le> Suc h" "Suc h \<le> Suc (Suc k)" "Suc h \<le> length (c # cs)"
      "res = None \<longrightarrow> Suc k = length (c # cs)"
      using k(1,2,3,10) by simp_all
    ultimately show ?thesis by blast
  qed
qed

lemma stops_same: "requests w' = requests w \<Longrightarrow> stops_at_failed_delete E w res w'"
  by (simp add: stops_at_failed_delete_def)

lemma stops_get: "requests w' = requests w @ [r] \<Longrightarrow> \<not> is_delete r \<Longrightarrow> stops_at_failed_delete E w res w'"
  by (auto simp: stops_at_failed_delete_def append_eq_Cons_conv Cons_eq_append_conv)

lemma stops_delete:
  "requests w' = requests w @ [DeleteVersion c i] \<Longrightarrow> delete_version E (requests w) c i = res \<Longrightarrow>
   stops_at_failed_delete E w res w'"
  by (auto simp: stops_at_failed_delete_def append_eq_Cons_conv Cons_eq_append_conv)

lemma stops_trans:
  assumes "stops_at_failed_delete E w None w1" and "stops_at_failed_delete E w1 res w2"
  shows "stops_at_failed_delete E w res w2"
proof -
  from assms(1) obtain rs1 where 1: "requests w1 = requests w @ rs1"
    "\<And>p c i q e. rs1 = p @ DeleteVersion c i # q \<Longrightarrow>
       delete_version E (requests w @ p) c i = Some e \<Longrightarrow> False"
    unfolding stops_at_failed_delete_def by blast
  from assms(2) obtain rs2 where 2: "requests w2 = requests w1 @ rs2"
    "\<And>p c i q e. rs2 = p @ DeleteVersion c i # q \<Longrightarrow>
       delete_version E (requests w1 @ p) c i = Some e \<Longrightarrow> q = [] \<and> res = Some e"
    unfolding stops_at_failed_delete_def by blast
  have "q = [] \<and> res = Some e"
    if split: "rs1 @ rs2 = p @ DeleteVersion c i # q"
      and fail: "delete_version E (requests w @ p) c i = Some e" for p c i q e
  proof -
    from split obtain us where
      "(rs1 = p @ us \<and> us @ rs2 = DeleteVersion c i # q) \<or> (rs1 @ us = p \<and> rs2 = us @ DeleteVersion c i # q)"
      by (auto simp: append_eq_append_conv2)
    then show ?thesis
    proof
      assume a: "rs1 = p @ us \<and> us @ rs2 = DeleteVersion c i # q"
      show ?thesis
      proof (cases us)
        case Nil
        with a have "rs2 = [] @ DeleteVersion c i # q" "rs1 = p" by simp_all
        with 2(2) [of "[]" c i q e] fail 1(1) show ?thesis by simp
      next
        case (Cons u us')
        with a have "rs1 = p @ DeleteVersion c i # us'" by simp
        from 1(2) [OF this fail] show ?thesis ..
      qed
    next
      assume a: "rs1 @ us = p \<and> rs2 = us @ DeleteVersion c i # q"
      with fail 1(1) have "delete_version E (requests w1 @ us) c i = Some e" by auto
      with 2(2) [of us c i q e] a show ?thesis by simp
    qed
  qed
  with 1(1) 2(1) show ?thesis
    unfolding stops_at_failed_delete_def by (intro exI [of _ "rs1 @ rs2"]) auto
qed

lemma prune_loop_stops:
  "stops_at_failed_delete E w (fst (prune_loop E c dry db tcs vs n w)) (snd (prune_loop E c dry db tcs vs n w))"
proof (induction vs arbitrary: n w)
  case Nil
  show ?case by (simp add: stops_same)
next
  case (Cons v vs)
  show ?case
  proof (cases "is_candidate (parse E) db tcs v")
    case (Inl e)
    then show ?thesis by (simp add: stops_same)
  next
    case (Inr b)
    show ?thesis
    proof (cases b)
      case False
      with Inr Cons.IH show ?thesis by simp
    next
      case True
      define w1 where "w1 = (if \<not> dry then send (DeleteVersion c (id_v v)) w else w)"
      define w3 where "w3 = print (''  '' @ name v)
        (if n = 0 then print (''  '' @ del_header dry @ '':'') w1 else w1)"
      have r3: "requests w3 = requests w1"
        by (simp add: w3_def print_def)
      show ?thesis
      proof (cases "if \<not> dry then delete_version E (requests w) c (id_v v) else None")
        case (Some e)
        then have "\<not> dry" "delete_version E (requests w) c (id_v v) = Some e"
          by (auto split: if_splits)
        with Inr True show ?thesis
          by (auto simp: send_def intro: stops_delete)
      next
        case None
        have "stops_at_failed_delete E w None w1"
        proof (cases dry)
          case True
          then show ?thesis by (simp add: w1_def stops_same)
        next
          case False
          with None show ?thesis
            by (auto simp: w1_def send_def intro: stops_delete)
        qed
        then have w3: "stops_at_failed_delete E w None w3"
          using r3 by (simp add: stops_at_failed_delete_def)
        from None Inr True have "prune_loop E c dry db tcs (v # vs) n w =
          prune_loop E c dry db tcs vs (n + 1) w3"
          by (simp add: w3_def w1_def Let_def)
        with stops_trans [OF w3 Cons.IH [of w3 "n + 1"]] show ?thesis
          by simp
      qed
    qed
  qed
qed

lemma prune_versions_stops:
  "stops_at_failed_delete E w (fst (prune_versions E c dry db vs w)) (snd (prune_versions E c dry db vs w))"
  by (auto simp: prune_versions_def stops_same prune_loop_stops split: sum.splits)

lemma prune_container_stops:
  "stops_at_failed_delete E w (fst (prune_container E c age dry w)) (snd (prune_container E c age dry w))"
proof (cases "dt_sub (Aware (now E (requests w))) age")
  case (Inl e)
  then show ?thesis
    by (simp del: dt_sub.simps add: prune_container_def Let_def print_def stops_same)
next
  case (Inr db)
  define w2 where "w2 = send (GetVersions c) (print (''Pruning images of '' @ c @ ''...'') w)"
  have w2: "stops_at_failed_delete E w res w2" for res
    by (rule stops_get [of _ _ "GetVersions c"]) (simp_all add: w2_def send_def print_def)
  show ?thesis
  proof (cases "get_versions E (requests w) c")
    case (Inl e)
    with Inr w2 show ?thesis
      by (simp del: dt_sub.simps add: prune_container_def Let_def w2_def print_def)
  next
    case vs: (Inr vs)
    with Inr have "prune_container E c age dry w = prune_versions E c dry db vs w2"
      by (simp del: dt_sub.simps add: prune_container_def Let_def w2_def print_def)
    with stops_trans [OF w2 prune_versions_stops] show ?thesis by simp
  qed
qed

lemma prune_each_stops:
  "stops_at_failed_delete E w (fst (prune_each E cs age dry w)) (snd (prune_each E cs age dry w))"
proof (induction cs arbitrary: w)
  case Nil
  show ?case by (simp add: stops_same)
next
  case (Cons c cs)
  obtain r1 w1 where pc: "prune_container E c age dry w = (r1, w1)"
    by (cases "prune_container E c age dry w")
  with prune_container_stops [of E w c age dry] have s1: "stops_at_failed_delete E w r1 w1"
    by simp
  show ?case
  proof (cases r1)
    case (Some e)
    with pc s1 show ?thesis by simp
  next
    case None
    with pc s1 stops_trans [OF _ Cons.IH [of w1]] show ?thesis by simp
  qed
qed

lemma container_prune_stops:
  "stops_at_failed_delete E w (fst (container_prune E cs age dry w)) (snd (container_prune E cs age dry w))"
proof -
  have gp: "stops_at_failed_delete E w res (send GetPackages w)" for res
    by (rule stops_get [of _ _ GetPackages]) (simp_all add: send_def)
  show ?thesis
    unfolding container_prune_def
    by (auto split: sum.splits intro: gp prune_each_stops stops_trans [OF gp prune_each_stops])
qed

lemma report_from_0: "report_from 0 dry cs = report dry cs"
  by (simp add: report_from_def)

lemma prune_versions_dry:
  assumes "select_for_deletion (parse E) vs cutoff = Inr cs"
  shows "prune_versions E c True (Aware cutoff) vs w = (None, w\<lparr>stdout := stdout w @ report True cs\<rparr>)"
proof -
  from assms obtain tcs where t: "tagged_created (parse E) vs = Inr tcs"
    and l: "select_loop (parse E) (Aware cutoff) tcs (sorted_reverse id_v vs) = Inr cs"
    by (auto simp: select_for_deletion_def split: sum.splits)
  from prune_loop_dry [OF l, of c 0 w] t show ?thesis
    by (simp add: prune_versions_def report_from_0)
qed

lemma prune_versions_live:
  assumes "select_for_deletion (parse E) vs cutoff = Inr cs"
    and "prune_versions E c False (Aware cutoff) vs w = (res, w')"
  shows "\<exists>k \<le> length cs.
     requests w' = requests w @ map (del_req c) (take k cs) \<and>
     (res = None \<longrightarrow> k = length cs \<and> stdout w' = stdout w @ report False cs) \<and>
     (\<forall>e. res = Some e \<longrightarrow> 0 < k \<and>
        delete_version E (requests w @ map (del_req c) (take (k - 1) cs)) c (id_v (cs ! (k - 1))) = Some e \<and>
        stdout w' = stdout w @ report False (take (k - 1) cs))"
proof -
  from assms(1) obtain tcs where t: "tagged_created (parse E) vs = Inr tcs"
    and l: "select_loop (parse E) (Aware cutoff) tcs (sorted_reverse id_v vs) = Inr cs"
    by (auto simp: select_for_deletion_def split: sum.splits)
  from assms(2) t have "prune_loop E c False (Aware cutoff) tcs (sorted_reverse id_v vs) 0 w = (res, w')"
    by (simp add: prune_versions_def)
  from prune_loop_live [OF l this] show ?thesis
    by (simp add: report_from_0)
qed

lemma prune_loop_nothing:
  "select_loop (parse E) db tcs vs = Inr [] \<Longrightarrow> prune_loop E c dry db tcs vs n w = (None, w)"
proof (induction vs arbitrary: n w)
  case Nil
  show ?case by simp
next
  case (Cons v vs)
  from Cons.prems obtain b cs' where b: "is_candidate (parse E) db tcs v = Inr b"
    and cs': "select_loop (parse E) db tcs vs = Inr cs'"
    and cs: "[] = (if b then v # cs' else cs')"
    by (auto split: sum.splits)
  from cs have "\<not> b" "cs' = []" by (auto split: if_splits)
  with b cs' Cons.IH show ?case by simp
qed

lemma prune_versions_nothing:
  assumes "select_for_deletion (parse E) vs cutoff = Inr []"
  shows "prune_versions E c dry (Aware cutoff) vs w = (None, w)"
proof -
  from assms obtain tcs where t: "tagged_created (parse E) vs = Inr tcs"
    and l: "select_loop (parse E) (Aware cutoff) tcs (sorted_reverse id_v vs) = Inr []"
    by (auto simp: select_for_deletion_def split: sum.splits)
  from prune_loop_nothing [OF l] t show ?thesis
    by (simp add: prune_versions_def)
qed

subsection \<open>The listing of the packages is read once\<close>

lemma prune_loop_listing:
  "prune_loop (E\<lparr>get_packages := g\<rparr>) c dry db tcs vs n w = prune_loop E c dry db tcs vs n w"
proof (induction vs arbitrary: n w)
  case Nil
  show ?case by simp
next
  case (Cons v vs)
  show ?case
  proof (cases "is_candidate (parse E) db tcs v")
    case (Inl e)
    then show ?thesis by simp
  next
    case (Inr b)
    show ?thesis
    proof (cases b)
      case False
      with Inr Cons.IH show ?thesis by simp
    next
      case True
      show ?thesis
      proof (cases dry)
        case dry: True
        with Inr True Cons.IH show ?thesis by (simp add: Let_def)
      next
        case live: False
        show ?thesis
        proof (cases "delete_version E (requests w) c (id_v v)")
          case (Some e)
          with Inr True live show ?thesis by simp
        next
          case None
          with Inr True live Cons.IH show ?thesis by (simp add: Let_def)
        qed
      qed
    qed
  qed
qed

lemma prune_versions_listing:
  "prune_versions (E\<lparr>get_packages := g\<rparr>) c dry db vs w = prune_versions E c dry db vs w"
  by (simp add: prune_versions_def prune_loop_listing split: sum.split)

lemma prune_container_listing:
  "prune_container (E\<lparr>get_packages := g\<rparr>) c age dry w = prune_container E c age dry w"
proof (cases "dt_sub (Aware (now E (requests w))) age")
  case (Inl e)
  then show ?thesis
    by (simp del: dt_sub.simps add: prune_container_def Let_def print_def)
next
  case (Inr db)
  then show ?thesis
    by (cases "get_versions E (requests w) c")
      (simp_all del: dt_sub.simps add: prune_container_def Let_def print_def prune_versions_listing)
qed

lemma prune_each_listing:
  "prune_each (E\<lparr>get_packages := g\<rparr>) cs age dry w = prune_each E cs age dry w"
proof (induction cs arbitrary: w)
  case Nil
  show ?case by simp
next
  case (Cons c cs)
  obtain r1 w1 where "prune_container E c age dry w = (r1, w1)"
    by (cases "prune_container E c age dry w")
  with Cons.IH show ?case
    by (cases r1) (simp_all add: prune_container_listing)
qed

subsection \<open>The sentinel\<close>

lemma all_mode_iff: "(length containers = 1 \<and> containers ! 0 = ''all'') \<longleftrightarrow> containers = [''all'']"
  by (cases containers) auto

lemma container_prune_all:
  "container_prune E [''all''] age dry w =
     (case get_packages E (requests w) of
        Inl e \<Rightarrow> (Some e, send GetPackages w)
      | Inr names \<Rightarrow> prune_each E (sort names) age dry (send GetPackages w))"
  by (simp add: container_prune_def)

lemma container_prune_named:
  "containers \<noteq> [''all''] \<Longrightarrow> container_prune E containers age dry w = prune_each E containers age dry w"
  unfolding container_prune_def all_mode_iff by simp

lemma container_prune_trace:
  assumes "container_prune E containers age dry w = (res, w')"
  shows "\<exists>rs. requests w' = requests w @ rs \<and> (dry \<longrightarrow> (\<forall>r \<in> set rs. \<not> is_delete r))"
proof (cases "containers = [''all'']")
  case False
  with assms have "prune_each E containers age dry w = (res, w')"
    by (simp add: container_prune_named)
  from prune_each_trace [OF this] show ?thesis by blast
next
  case True
  show ?thesis
  proof (cases "get_packages E (requests w)")
    case (Inl e)
    with True assms have "requests w' = requests w @ [GetPackages]"
      by (auto simp: container_prune_all send_def)
    then show ?thesis by simp
  next
    case (Inr names)
    with True assms have "prune_each E (sort names) age dry (send GetPackages w) = (res, w')"
      by (simp add: container_prune_all)
    from prune_each_trace [OF this] obtain rs where
      "requests w' = requests (send GetPackages w) @ rs" "dry \<longrightarrow> (\<forall>r \<in> set rs. \<not> is_delete r)"
      by blast
    then have "requests w' = requests w @ (GetPackages # rs)"
      "dry \<longrightarrow> (\<forall>r \<in> set (GetPackages # rs). \<not> is_delete r)"
      by (simp_all add: send_def)
    then show ?thesis by blast
  qed
qed

section \<open>The claims\<close>

text \<open>
  Claim C1. A version is never selected when its creation instant \<open>c\<close> lies in the
  window before the creation instant \<open>t\<close> of some tagged version of the list, that is
  when \<open>t - 15 min < c \<le> t\<close>: the lower bound is strict, the upper bound inclusive. It
  does not matter whether the version is untagged or older than the cutoff, and one
  tagged version with such an instant is enough, whatever the other tagged versions
  and their windows are.
\<close>

theorem protected_never_selected:
  assumes "select_for_deletion P vs cutoff = Inr r"
    and "u \<in> set vs" and "tags u \<noteq> []"
    and "P (created_at u) = Inr (Aware t)"
    and "P (created_at v) = Inr (Aware c)"
    and "t - tag_window < c" and "c \<le> t"
  shows "v \<notin> set r"
proof
  assume "v \<in> set r"
  from assms(1) have r: "r = spec_select P vs cutoff tag_window"
    by (rule select_sound)
  with \<open>v \<in> set r\<close> have "spec_candidate P (tagged_instants P vs) cutoff tag_window v"
    by (simp add: set_spec_select)
  then have no: "\<not> (\<exists>t \<in> set (tagged_instants P vs). t - tag_window < instant_of P v \<and> instant_of P v \<le> t)"
    by (simp add: spec_candidate_def)
  have "instant_of P u \<in> set (tagged_instants P vs)"
    using assms(2,3) by (simp add: tagged_instants_def)
  moreover have "instant_of P u = t"
    using assms(4) by (simp add: instant_of_def)
  ultimately have "t \<in> set (tagged_instants P vs)"
    by simp
  moreover have "instant_of P v = c"
    using assms(5) by (simp add: instant_of_def)
  ultimately show False
    using no assms(6,7) by auto
qed

theorem protected_never_selected_witness:
  "select_for_deletion example_parse example_versions example_cutoff = Inr [v15, v11] \<and>
   v12 \<notin> set [v15, v11]"
proof -
  have 1: "select_for_deletion example_parse example_versions example_cutoff = Inr [v15, v11]"
    by code_simp
  have 2: "v14 \<in> set example_versions" by code_simp
  have 3: "tags v14 \<noteq> []" by code_simp
  have 4: "example_parse (created_at v14) = Inr (Aware 1643674200000000)" by code_simp
  have 5: "example_parse (created_at v12) = Inr (Aware 1643673600000000)" by code_simp
  have 6: "1643674200000000 - tag_window < (1643673600000000 :: int)" by code_simp
  have 7: "(1643673600000000 :: int) \<le> 1643674200000000" by simp
  from protected_never_selected [OF 1 2 3 4 5 6 7] 1 show ?thesis by simp
qed

text \<open>
  Claim C2. Every selected version has an empty list of tags: a version with a tag is
  never selected, whatever its age.
\<close>

theorem selected_untagged:
  assumes "select_for_deletion P vs cutoff = Inr r" and "v \<in> set r"
  shows "tags v = []"
proof -
  from assms(1) have "r = spec_select P vs cutoff tag_window"
    by (rule select_sound)
  with assms(2) have "spec_candidate P (tagged_instants P vs) cutoff tag_window v"
    by (simp add: set_spec_select)
  then show ?thesis by (simp add: spec_candidate_def)
qed

theorem selected_untagged_witness:
  "select_for_deletion example_parse example_versions example_cutoff = Inr [v15, v11] \<and>
   tags v15 = [] \<and> tags v11 = []"
proof -
  have 1: "select_for_deletion example_parse example_versions example_cutoff = Inr [v15, v11]"
    by code_simp
  have "v15 \<in> set [v15, v11]" "v11 \<in> set [v15, v11]" by simp_all
  with selected_untagged [OF 1] 1 show ?thesis by blast
qed

text \<open>
  Claim C3. Every selected version was created strictly before the cutoff: its timestamp
  parses to an aware datetime whose instant is less than the cutoff.
\<close>

theorem selected_older_than_cutoff:
  assumes "select_for_deletion P vs cutoff = Inr r" and "v \<in> set r"
  shows "\<exists>c. P (created_at v) = Inr (Aware c) \<and> c < cutoff"
proof -
  from assms(1) have val: "prevalidated P vs" and r: "r = spec_select P vs cutoff tag_window"
    by (rule select_Inr_valid, rule select_sound)
  from r assms(2) have v: "v \<in> set vs"
    and c: "spec_candidate P (tagged_instants P vs) cutoff tag_window v"
    by (simp_all add: set_spec_select)
  from val v obtain i where i: "P (created_at v) = Inr (Aware i)"
    by (auto simp: prevalidated_iff)
  from c have "instant_of P v < cutoff" by (simp add: spec_candidate_def)
  moreover from i have "instant_of P v = i" by (simp add: instant_of_def)
  ultimately show ?thesis using i by simp
qed

theorem selected_older_than_cutoff_witness:
  "select_for_deletion example_parse example_versions example_cutoff = Inr [v15, v11] \<and>
   (\<exists>c. example_parse (created_at v15) = Inr (Aware c) \<and> c < example_cutoff)"
proof -
  have 1: "select_for_deletion example_parse example_versions example_cutoff = Inr [v15, v11]"
    by code_simp
  have "v15 \<in> set [v15, v11]" by simp
  from selected_older_than_cutoff [OF 1 this] 1 show ?thesis by blast
qed



text \<open>
  Claim C5. The containers are enumerated exactly when the arguments are the one token
  \<^verbatim>\<open>all\<close>: then the first request of the run is the listing of the owned packages, it
  is the only one, and a run that ends without an error has asked for the versions of
  every package the listing named (when the listing fails, its error is the result and
  nothing else is sent). With any other arguments, also when \<^verbatim>\<open>all\<close> stands among other
  names, no listing is sent and the arguments themselves are processed as container
  names, in their order, up to the first error.
\<close>

theorem all_sentinel:
  assumes "container_prune E containers age dry w = (res, w')"
  shows "(containers = [''all''] \<longrightarrow>
            (\<exists>rs. requests w' = requests w @ GetPackages # rs \<and> GetPackages \<notin> set rs \<and>
               (\<forall>names. get_packages E (requests w) = Inr names \<longrightarrow> res = None \<longrightarrow>
                  set (versions_requested rs) = set names) \<and>
               (\<forall>e. get_packages E (requests w) = Inl e \<longrightarrow> res = Some e \<and> rs = []))) \<and>
         (containers \<noteq> [''all''] \<longrightarrow>
            (\<exists>k rs. k \<le> length containers \<and> requests w' = requests w @ rs \<and> GetPackages \<notin> set rs \<and>
               versions_requested rs = take k containers \<and> (res = None \<longrightarrow> k = length containers)))"
proof (cases "containers = [''all'']")
  case False
  with assms have "prune_each E containers age dry w = (res, w')"
    by (simp add: container_prune_named)
  from prune_each_trace [OF this] obtain k h rs where "k \<le> h" "h \<le> length containers"
    "requests w' = requests w @ rs" "versions_requested rs = take k containers"
    "GetPackages \<notin> set rs" "res = None \<longrightarrow> k = length containers"
    by blast
  then have "k \<le> length containers \<and> requests w' = requests w @ rs \<and> GetPackages \<notin> set rs \<and>
    versions_requested rs = take k containers \<and> (res = None \<longrightarrow> k = length containers)"
    by simp
  with False show ?thesis by blast
next
  case True
  have "\<exists>rs. requests w' = requests w @ GetPackages # rs \<and> GetPackages \<notin> set rs \<and>
               (\<forall>names. get_packages E (requests w) = Inr names \<longrightarrow> res = None \<longrightarrow>
                  set (versions_requested rs) = set names) \<and>
               (\<forall>e. get_packages E (requests w) = Inl e \<longrightarrow> res = Some e \<and> rs = [])"
  proof (cases "get_packages E (requests w)")
    case (Inl e)
    with True assms have "requests w' = requests w @ [GetPackages]" "res = Some e"
      by (auto simp: container_prune_all send_def)
    with Inl show ?thesis by (intro exI [of _ "[]"]) simp
  next
    case (Inr names)
    with True assms have "prune_each E (sort names) age dry (send GetPackages w) = (res, w')"
      by (simp add: container_prune_all)
    from prune_each_trace [OF this] obtain k h rs where k: "k \<le> h" "h \<le> length (sort names)"
      "requests w' = requests (send GetPackages w) @ rs"
      "versions_requested rs = take k (sort names)" "GetPackages \<notin> set rs"
      "res = None \<longrightarrow> k = length (sort names)"
      by blast
    from k(3) have 1: "requests w' = requests w @ GetPackages # rs"
      by (simp add: send_def)
    have 2: "set (versions_requested rs) = set names" if "res = None"
      using that k(4,6) by simp
    from 1 2 k(5) Inr show ?thesis by (intro exI [of _ rs]) simp
  qed
  with True show ?thesis by simp
qed

theorem all_sentinel_witness:
  "container_prune example_env [''all''] example_age True w0 =
     (None, \<lparr>requests = [GetPackages, GetVersions ''api'', GetVersions ''web''],
        stdout = [''Pruning images of api...'', ''  Would delete:'', ''  sha256:0f'', ''  sha256:0b'',
                  ''Pruning images of web...'', ''  Would delete:'', ''  sha256:0b'']\<rparr>) \<and>
   (\<exists>rs. [GetPackages, GetVersions ''api'', GetVersions ''web''] = GetPackages # rs \<and>
      GetPackages \<notin> set rs \<and> set (versions_requested rs) = set [''web'', ''api'']) \<and>
   container_prune example_env [''all'', ''web''] example_age True w0 =
     (Some HTTPError, \<lparr>requests = [GetVersions ''all''], stdout = [''Pruning images of all...'']\<rparr>) \<and>
   (\<exists>k rs. k \<le> length [''all'', ''web''] \<and> [GetVersions ''all''] = rs \<and> GetPackages \<notin> set rs \<and>
      versions_requested rs = take k [''all'', ''web''])"
proof -
  have 1: "container_prune example_env [''all''] example_age True w0 =
     (None, \<lparr>requests = [GetPackages, GetVersions ''api'', GetVersions ''web''],
        stdout = [''Pruning images of api...'', ''  Would delete:'', ''  sha256:0f'', ''  sha256:0b'',
                  ''Pruning images of web...'', ''  Would delete:'', ''  sha256:0b'']\<rparr>)"
    by code_simp
  have 2: "container_prune example_env [''all'', ''web''] example_age True w0 =
     (Some HTTPError, \<lparr>requests = [GetVersions ''all''], stdout = [''Pruning images of all...'']\<rparr>)"
    by code_simp
  have 3: "get_packages example_env (requests w0) = Inr [''web'', ''api'']"
    by (simp add: example_env_def)
  have 4: "requests w0 = []" by (simp add: w0_def)
  from all_sentinel [OF 1] 3 4 have a:
    "\<exists>rs. [GetPackages, GetVersions ''api'', GetVersions ''web''] = GetPackages # rs \<and>
      GetPackages \<notin> set rs \<and> set (versions_requested rs) = set [''web'', ''api'']"
    by simp
  from all_sentinel [OF 2] 4 have b:
    "\<exists>k rs. k \<le> length [''all'', ''web''] \<and> [GetVersions ''all''] = rs \<and> GetPackages \<notin> set rs \<and>
      versions_requested rs = take k [''all'', ''web'']"
    by simp
  from 1 2 a b show ?thesis by (intro conjI)
qed

text \<open>
  Claim C6. In live mode the requests sent for the versions of a container are the
  deletions of the selected versions, one for each, in the order of the selection,
  up to and including the first deletion that fails; when none fails every selected
  version is deleted and listed under \<^verbatim>\<open>Deleted:\<close>, and when one fails its error is
  the result and the versions deleted before it are the ones listed. For the whole
  run, over all the containers: a deletion that fails is the last request of the run
  and its error is the result of the run, so nothing is retried and no later version
  or container is touched.
\<close>

theorem live_deletes_in_order:
  "(\<forall>cs res w'. select_for_deletion (parse E) vs cutoff = Inr cs \<longrightarrow>
       prune_versions E c False (Aware cutoff) vs w = (res, w') \<longrightarrow>
       (\<exists>k \<le> length cs.
          requests w' = requests w @ map (\<lambda>v. DeleteVersion c (id_v v)) (take k cs) \<and>
          (res = None \<longrightarrow> k = length cs \<and> stdout w' = stdout w @ report False cs) \<and>
          (\<forall>e. res = Some e \<longrightarrow> 0 < k \<and>
             delete_version E (requests w @ map (\<lambda>v. DeleteVersion c (id_v v)) (take (k - 1) cs)) c
               (id_v (cs ! (k - 1))) = Some e \<and>
             stdout w' = stdout w @ report False (take (k - 1) cs)))) \<and>
   stops_at_failed_delete E w1 (fst (container_prune E containers age False w1))
     (snd (container_prune E containers age False w1))"
proof -
  have d: "del_req c = (\<lambda>v. DeleteVersion c (id_v v))"
    by (rule ext) (simp add: del_req_def)
  have "\<exists>k \<le> length cs.
          requests w' = requests w @ map (\<lambda>v. DeleteVersion c (id_v v)) (take k cs) \<and>
          (res = None \<longrightarrow> k = length cs \<and> stdout w' = stdout w @ report False cs) \<and>
          (\<forall>e. res = Some e \<longrightarrow> 0 < k \<and>
             delete_version E (requests w @ map (\<lambda>v. DeleteVersion c (id_v v)) (take (k - 1) cs)) c
               (id_v (cs ! (k - 1))) = Some e \<and>
             stdout w' = stdout w @ report False (take (k - 1) cs))"
    if "select_for_deletion (parse E) vs cutoff = Inr cs"
      and "prune_versions E c False (Aware cutoff) vs w = (res, w')" for cs res w'
    using prune_versions_live [OF that] unfolding d .
  then show ?thesis
    using container_prune_stops [of E w1 containers age False] by blast
qed

theorem live_deletes_in_order_witness:
  "select_for_deletion (parse example_env) example_versions example_cutoff = Inr [v15, v11] \<and>
   prune_versions example_env ''api'' False (Aware example_cutoff) example_versions w0 =
     (Some HTTPError,
      \<lparr>requests = [DeleteVersion ''api'' 15, DeleteVersion ''api'' 11],
         stdout = [''  Deleted:'', ''  sha256:0f'']\<rparr>) \<and>
   (\<exists>k \<le> length [v15, v11].
      [DeleteVersion ''api'' 15, DeleteVersion ''api'' 11] =
        map (\<lambda>v. DeleteVersion ''api'' (id_v v)) (take k [v15, v11]) \<and> 0 < k \<and>
      delete_version example_env (map (\<lambda>v. DeleteVersion ''api'' (id_v v)) (take (k - 1) [v15, v11]))
        ''api'' (id_v ([v15, v11] ! (k - 1))) = Some HTTPError \<and>
      [''  Deleted:'', ''  sha256:0f''] = report False (take (k - 1) [v15, v11])) \<and>
   container_prune example_env [''all''] example_age False w0 =
     (Some HTTPError,
      \<lparr>requests = [GetPackages, GetVersions ''api'', DeleteVersion ''api'' 15, DeleteVersion ''api'' 11],
         stdout = [''Pruning images of api...'', ''  Deleted:'', ''  sha256:0f'']\<rparr>) \<and>
   stops_at_failed_delete example_env w0 (Some HTTPError)
     \<lparr>requests = [GetPackages, GetVersions ''api'', DeleteVersion ''api'' 15, DeleteVersion ''api'' 11],
        stdout = [''Pruning images of api...'', ''  Deleted:'', ''  sha256:0f'']\<rparr>"
proof -
  have 1: "select_for_deletion (parse example_env) example_versions example_cutoff = Inr [v15, v11]"
    by code_simp
  have 2: "prune_versions example_env ''api'' False (Aware example_cutoff) example_versions w0 =
     (Some HTTPError,
      \<lparr>requests = [DeleteVersion ''api'' 15, DeleteVersion ''api'' 11],
         stdout = [''  Deleted:'', ''  sha256:0f'']\<rparr>)"
    by code_simp
  have 3: "container_prune example_env [''all''] example_age False w0 =
     (Some HTTPError,
      \<lparr>requests = [GetPackages, GetVersions ''api'', DeleteVersion ''api'' 15, DeleteVersion ''api'' 11],
         stdout = [''Pruning images of api...'', ''  Deleted:'', ''  sha256:0f'']\<rparr>)"
    by code_simp
  have 4: "requests w0 = []" "stdout w0 = []" by (simp_all add: w0_def)
  note T = live_deletes_in_order [where E = example_env and vs = example_versions
      and cutoff = example_cutoff and c = "''api''" and w = w0 and containers = "[''all'']"
      and age = example_age and ?w1.0 = w0]
  from T have "\<exists>k \<le> length [v15, v11].
          requests \<lparr>requests = [DeleteVersion ''api'' 15, DeleteVersion ''api'' 11],
              stdout = [''  Deleted:'', ''  sha256:0f'']\<rparr> =
            requests w0 @ map (\<lambda>v. DeleteVersion ''api'' (id_v v)) (take k [v15, v11]) \<and>
          (Some HTTPError = None \<longrightarrow> k = length [v15, v11] \<and>
             stdout \<lparr>requests = [DeleteVersion ''api'' 15, DeleteVersion ''api'' 11],
              stdout = [''  Deleted:'', ''  sha256:0f'']\<rparr> = stdout w0 @ report False [v15, v11]) \<and>
          (\<forall>e. Some HTTPError = Some e \<longrightarrow> 0 < k \<and>
             delete_version example_env
               (requests w0 @ map (\<lambda>v. DeleteVersion ''api'' (id_v v)) (take (k - 1) [v15, v11])) ''api''
               (id_v ([v15, v11] ! (k - 1))) = Some e \<and>
             stdout \<lparr>requests = [DeleteVersion ''api'' 15, DeleteVersion ''api'' 11],
              stdout = [''  Deleted:'', ''  sha256:0f'']\<rparr> =
               stdout w0 @ report False (take (k - 1) [v15, v11]))"
    using 1 2 by blast
  then obtain k where k: "k \<le> length [v15, v11]"
    "requests \<lparr>requests = [DeleteVersion ''api'' 15, DeleteVersion ''api'' 11],
              stdout = [''  Deleted:'', ''  sha256:0f'']\<rparr> =
            requests w0 @ map (\<lambda>v. DeleteVersion ''api'' (id_v v)) (take k [v15, v11])"
    "0 < k"
    "delete_version example_env
               (requests w0 @ map (\<lambda>v. DeleteVersion ''api'' (id_v v)) (take (k - 1) [v15, v11])) ''api''
               (id_v ([v15, v11] ! (k - 1))) = Some HTTPError"
    "stdout \<lparr>requests = [DeleteVersion ''api'' 15, DeleteVersion ''api'' 11],
              stdout = [''  Deleted:'', ''  sha256:0f'']\<rparr> =
               stdout w0 @ report False (take (k - 1) [v15, v11])"
    by blast
  have a: "\<exists>k \<le> length [v15, v11].
      [DeleteVersion ''api'' 15, DeleteVersion ''api'' 11] =
        map (\<lambda>v. DeleteVersion ''api'' (id_v v)) (take k [v15, v11]) \<and> 0 < k \<and>
      delete_version example_env (map (\<lambda>v. DeleteVersion ''api'' (id_v v)) (take (k - 1) [v15, v11]))
        ''api'' (id_v ([v15, v11] ! (k - 1))) = Some HTTPError \<and>
      [''  Deleted:'', ''  sha256:0f''] = report False (take (k - 1) [v15, v11])"
  proof (intro exI [of _ k] conjI)
    show "k \<le> length [v15, v11]" by (rule k(1))
    show "0 < k" by (rule k(3))
    show "[DeleteVersion ''api'' 15, DeleteVersion ''api'' 11] =
        map (\<lambda>v. DeleteVersion ''api'' (id_v v)) (take k [v15, v11])"
      using k(2) unfolding 4 by simp
    show "delete_version example_env (map (\<lambda>v. DeleteVersion ''api'' (id_v v)) (take (k - 1) [v15, v11]))
        ''api'' (id_v ([v15, v11] ! (k - 1))) = Some HTTPError"
      using k(4) unfolding 4 by simp
    show "[''  Deleted:'', ''  sha256:0f''] = report False (take (k - 1) [v15, v11])"
      using k(5) unfolding 4 by simp
  qed
  from T have b: "stops_at_failed_delete example_env w0 (Some HTTPError)
     \<lparr>requests = [GetPackages, GetVersions ''api'', DeleteVersion ''api'' 15, DeleteVersion ''api'' 11],
        stdout = [''Pruning images of api...'', ''  Deleted:'', ''  sha256:0f'']\<rparr>"
    unfolding 3 by simp
  from 1 2 a 3 b show ?thesis by (intro conjI)
qed

text \<open>
  Claim C7. In dry-run mode the versions of a container are processed without a
  request: the state changes by the report only, which lists the selected versions
  under the sub-header \<^verbatim>\<open>Would delete:\<close>. And whatever the arguments and the answers
  of the registry, no request of a whole dry run is a deletion.
\<close>

theorem dry_run_deletes_nothing:
  "(\<forall>cs. select_for_deletion (parse E) vs cutoff = Inr cs \<longrightarrow>
      prune_versions E c True (Aware cutoff) vs w =
        (None, w\<lparr>stdout := stdout w @
           (if cs = [] then [] else ''  Would delete:'' # map (\<lambda>v. ''  '' @ name v) cs)\<rparr>)) \<and>
   (\<exists>rs. requests (snd (container_prune E containers age True w1)) = requests w1 @ rs \<and>
      (\<forall>r \<in> set rs. \<not> is_delete r))"
proof -
  have rep: "report True cs = (if cs = [] then [] else ''  Would delete:'' # map (\<lambda>v. ''  '' @ name v) cs)"
    for cs
    by (simp add: report_def del_header_def version_line_def)
  have a: "prune_versions E c True (Aware cutoff) vs w =
        (None, w\<lparr>stdout := stdout w @
           (if cs = [] then [] else ''  Would delete:'' # map (\<lambda>v. ''  '' @ name v) cs)\<rparr>)"
    if "select_for_deletion (parse E) vs cutoff = Inr cs" for cs
    using prune_versions_dry [OF that, of c w] by (simp only: rep)
  obtain res w' where run: "container_prune E containers age True w1 = (res, w')"
    by (cases "container_prune E containers age True w1")
  from container_prune_trace [OF run] have
    b: "\<exists>rs. requests (snd (container_prune E containers age True w1)) = requests w1 @ rs \<and>
      (\<forall>r \<in> set rs. \<not> is_delete r)"
    by (simp add: run)
  from a b show ?thesis by blast
qed

theorem dry_run_deletes_nothing_witness:
  "select_for_deletion (parse example_env) example_versions example_cutoff = Inr [v15, v11] \<and>
   prune_versions example_env ''api'' True (Aware example_cutoff) example_versions w0 =
     (None, w0\<lparr>stdout := stdout w0 @ [''  Would delete:'', ''  '' @ name v15, ''  '' @ name v11]\<rparr>) \<and>
   (\<exists>rs. requests (snd (container_prune example_env [''all''] example_age True w0)) = requests w0 @ rs \<and>
      list_all (\<lambda>r. \<not> is_delete r) rs)"
proof -
  have 1: "select_for_deletion (parse example_env) example_versions example_cutoff = Inr [v15, v11]"
    by code_simp
  note T = dry_run_deletes_nothing [where E = example_env and vs = example_versions
      and cutoff = example_cutoff and c = "''api''" and w = w0 and containers = "[''all'']"
      and age = example_age and ?w1.0 = w0]
  from T have "\<forall>cs. select_for_deletion (parse example_env) example_versions example_cutoff = Inr cs \<longrightarrow>
      prune_versions example_env ''api'' True (Aware example_cutoff) example_versions w0 =
        (None, w0\<lparr>stdout := stdout w0 @
           (if cs = [] then [] else ''  Would delete:'' # map (\<lambda>v. ''  '' @ name v) cs)\<rparr>)"
    by (rule conjunct1)
  with 1 have "prune_versions example_env ''api'' True (Aware example_cutoff) example_versions w0 =
     (None, w0\<lparr>stdout := stdout w0 @
        (if [v15, v11] = [] then [] else ''  Would delete:'' # map (\<lambda>v. ''  '' @ name v) [v15, v11])\<rparr>)"
    by blast
  then have 2: "prune_versions example_env ''api'' True (Aware example_cutoff) example_versions w0 =
     (None, w0\<lparr>stdout := stdout w0 @ [''  Would delete:'', ''  '' @ name v15, ''  '' @ name v11]\<rparr>)"
    by simp
  from T have "\<exists>rs. requests (snd (container_prune example_env [''all''] example_age True w0)) = requests w0 @ rs \<and>
      (\<forall>r \<in> set rs. \<not> is_delete r)"
    by (rule conjunct2)
  then have 3: "\<exists>rs. requests (snd (container_prune example_env [''all''] example_age True w0)) = requests w0 @ rs \<and>
      list_all (\<lambda>r. \<not> is_delete r) rs"
    by (simp only: list_all_iff)
  from 1 2 3 show ?thesis by (intro conjI)
qed




text \<open>
  Claim C9. On the empty list the selection is empty and nothing is raised; the function
  then sends no request and prints no line. The same holds for a list of versions that
  are all tagged (their timestamps being well-formed, as the specification's versions
  are).
\<close>

theorem empty_or_all_tagged:
  "select_for_deletion P [] cutoff = Inr [] \<and>
   prune_versions E c dry (Aware cutoff) [] w = (None, w) \<and>
   (prevalidated P vs \<and> (\<forall>v \<in> set vs. tags v \<noteq> []) \<longrightarrow> select_for_deletion P vs cutoff = Inr []) \<and>
   (prevalidated (parse E) vs \<and> (\<forall>v \<in> set vs. tags v \<noteq> []) \<longrightarrow>
      prune_versions E c dry (Aware cutoff) vs w = (None, w))"
proof -
  have e: "select_for_deletion Q [] cutoff = Inr []" for Q
    by (simp add: select_for_deletion_def sorted_reverse_def)
  have t: "select_for_deletion Q vs cutoff = Inr []"
    if "prevalidated Q vs" and "\<forall>v \<in> set vs. tags v \<noteq> []" for Q
    using that by (rule select_tagged)
  from e [of "parse E"] have "prune_versions E c dry (Aware cutoff) [] w = (None, w)"
    by (rule prune_versions_nothing)
  moreover have "prune_versions E c dry (Aware cutoff) vs w = (None, w)"
    if "prevalidated (parse E) vs" and "\<forall>v \<in> set vs. tags v \<noteq> []"
    using t [OF that] by (rule prune_versions_nothing)
  ultimately show ?thesis using e t by blast
qed

theorem empty_or_all_tagged_witness:
  "prevalidated example_parse [v13, v14] \<and> tags v13 \<noteq> [] \<and> tags v14 \<noteq> [] \<and>
   select_for_deletion example_parse [v13, v14] example_cutoff = Inr [] \<and>
   prune_versions example_env ''api'' False (Aware example_cutoff) [v13, v14] w0 = (None, w0)"
proof -
  have 1: "prevalidated example_parse [v13, v14]" by code_simp
  have 2: "tags v13 \<noteq> []" "tags v14 \<noteq> []" by code_simp+
  then have 3: "\<forall>v \<in> set [v13, v14]. tags v \<noteq> []" by simp
  have 4: "parse example_env = example_parse" by (simp add: example_env_def)
  note T = empty_or_all_tagged [of example_parse example_cutoff example_env "''api''" False w0 "[v13, v14]"]
  from T 1 2 3 4 show ?thesis by simp
qed

text \<open>
  Claim C10. When the argument is \<^verbatim>\<open>all\<close> and the listing succeeds, the packages are
  processed in the ascending lexicographic order of their names: the requests for
  versions, and the headers of the sections of the report, follow the sorted list of
  names, up to the first error and to its end when there is none. The header of a
  container is printed before its versions are requested, so that a run that ends
  with an error may have printed one header more than it sent requests for versions.
  The order in which the registry lists the names makes no difference: the same names
  listed in another order give the same run.
\<close>

theorem all_in_sorted_order:
  assumes "get_packages E (requests w) = Inr names"
    and "container_prune E [''all''] age dry w = (res, w')"
  shows "(\<exists>k h rs ls. k \<le> h \<and> h \<le> Suc k \<and> h \<le> length names \<and>
            requests w' = requests w @ GetPackages # rs \<and> stdout w' = stdout w @ ls \<and>
            versions_requested rs = take k (sort names) \<and>
            section_headers ls = map header (take h (sort names)) \<and>
            (res = None \<longrightarrow> k = length names \<and> h = length names)) \<and>
         sorted (sort names) \<and>
         (\<forall>names'. mset names' = mset names \<longrightarrow>
            container_prune (E\<lparr>get_packages := \<lambda>h. Inr names'\<rparr>) [''all''] age dry w = (res, w'))"
proof -
  from assms have run: "prune_each E (sort names) age dry (send GetPackages w) = (res, w')"
    by (simp add: container_prune_all)
  from prune_each_trace [OF run] obtain k h rs ls where k: "k \<le> h" "h \<le> Suc k"
    "h \<le> length (sort names)"
    "requests w' = requests (send GetPackages w) @ rs" "stdout w' = stdout (send GetPackages w) @ ls"
    "versions_requested rs = take k (sort names)"
    "section_headers ls = map header (take h (sort names))"
    "res = None \<longrightarrow> k = length (sort names)"
    by blast
  from k(1,2,3,4,5,8) have "k \<le> h" "h \<le> Suc k" "h \<le> length names"
    "requests w' = requests w @ GetPackages # rs"
    "stdout w' = stdout w @ ls" "res = None \<longrightarrow> k = length names \<and> h = length names"
    by (auto simp: send_def)
  with k(6,7) have 1: "\<exists>k h rs ls. k \<le> h \<and> h \<le> Suc k \<and> h \<le> length names \<and>
            requests w' = requests w @ GetPackages # rs \<and> stdout w' = stdout w @ ls \<and>
            versions_requested rs = take k (sort names) \<and>
            section_headers ls = map header (take h (sort names)) \<and>
            (res = None \<longrightarrow> k = length names \<and> h = length names)"
    by blast
  have 2: "container_prune (E\<lparr>get_packages := \<lambda>h. Inr names'\<rparr>) [''all''] age dry w = (res, w')"
    if p: "mset names' = mset names" for names'
  proof -
    have "sort names' = sort names"
      by (rule properties_for_sort) (simp_all add: p)
    with run show ?thesis
      by (simp add: container_prune_all prune_each_listing)
  qed
  from 1 2 show ?thesis by simp
qed

theorem all_in_sorted_order_witness:
  "get_packages example_env (requests w0) = Inr [''web'', ''api''] \<and>
   container_prune example_env [''all''] example_age True w0 =
     (None, \<lparr>requests = [GetPackages, GetVersions ''api'', GetVersions ''web''],
        stdout = [''Pruning images of api...'', ''  Would delete:'', ''  sha256:0f'', ''  sha256:0b'',
                  ''Pruning images of web...'', ''  Would delete:'', ''  sha256:0b'']\<rparr>) \<and>
   versions_requested [GetPackages, GetVersions ''api'', GetVersions ''web''] = sort [''web'', ''api''] \<and>
   container_prune (example_env\<lparr>get_packages := \<lambda>h. Inr [''api'', ''web'']\<rparr>) [''all''] example_age True w0 =
     (None, \<lparr>requests = [GetPackages, GetVersions ''api'', GetVersions ''web''],
        stdout = [''Pruning images of api...'', ''  Would delete:'', ''  sha256:0f'', ''  sha256:0b'',
                  ''Pruning images of web...'', ''  Would delete:'', ''  sha256:0b'']\<rparr>) \<and>
   container_prune example_env [''all''] 69120000000000000 True w0 =
     (Some OverflowError, \<lparr>requests = [GetPackages], stdout = [''Pruning images of api...'']\<rparr>)"
proof -
  have 5: "container_prune example_env [''all''] 69120000000000000 True w0 =
     (Some OverflowError, \<lparr>requests = [GetPackages], stdout = [''Pruning images of api...'']\<rparr>)"
    by code_simp
  have 1: "get_packages example_env (requests w0) = Inr [''web'', ''api'']"
    by (simp add: example_env_def)
  have 2: "container_prune example_env [''all''] example_age True w0 =
     (None, \<lparr>requests = [GetPackages, GetVersions ''api'', GetVersions ''web''],
        stdout = [''Pruning images of api...'', ''  Would delete:'', ''  sha256:0f'', ''  sha256:0b'',
                  ''Pruning images of web...'', ''  Would delete:'', ''  sha256:0b'']\<rparr>)"
    by code_simp
  have 3: "mset [''api'', ''web''] = mset [''web'', ''api'']" by simp
  have 4: "requests w0 = []" by (simp add: w0_def)
  note T = all_in_sorted_order [OF 1 2]
  from T obtain k rs where k:
    "requests \<lparr>requests = [GetPackages, GetVersions ''api'', GetVersions ''web''],
        stdout = [''Pruning images of api...'', ''  Would delete:'', ''  sha256:0f'', ''  sha256:0b'',
                  ''Pruning images of web...'', ''  Would delete:'', ''  sha256:0b'']\<rparr> =
       requests w0 @ GetPackages # rs"
    "versions_requested rs = take k (sort [''web'', ''api''])"
    "None = (None :: error option) \<longrightarrow> k = length [''web'', ''api'']"
    by blast
  from k(1) have "rs = [GetVersions ''api'', GetVersions ''web'']"
    unfolding 4 by simp
  with k(2,3) have a: "versions_requested [GetPackages, GetVersions ''api'', GetVersions ''web''] =
    sort [''web'', ''api'']"
    by simp
  from T 3 have b: "container_prune (example_env\<lparr>get_packages := \<lambda>h. Inr [''api'', ''web'']\<rparr>) [''all'']
      example_age True w0 =
     (None, \<lparr>requests = [GetPackages, GetVersions ''api'', GetVersions ''web''],
        stdout = [''Pruning images of api...'', ''  Would delete:'', ''  sha256:0f'', ''  sha256:0b'',
                  ''Pruning images of web...'', ''  Would delete:'', ''  sha256:0b'']\<rparr>)"
    by blast
  from 1 2 a b 5 show ?thesis by (intro conjI)
qed

end
